theory Spec2Isabelle
  imports Main "HOL-Library.AList"
begin

section \<open>The session and authorization manager of kvmd (apps/kvmd/auth.py)\<close>

text \<open>
  The theory embeds \<^verbatim>\<open>_Session\<close> and every method of \<^verbatim>\<open>AuthManager\<close>.
  Conventions of the embedding:
  \<^item> a Python \<^verbatim>\<open>str\<close> is a \<open>string\<close>; the characters that \<^verbatim>\<open>str.strip()\<close>
    removes are the whitespace code points below 256;
  \<^item> an exception is a value \<open>Inl e\<close> of the result; a failed \<^verbatim>\<open>assert\<close> is
    \<open>AssertionError\<close> with the empty message;
  \<^item> the dictionary \<^verbatim>\<open>__sessions\<close> is an association list in insertion order, read
    with \<open>map_of\<close>, written with \<open>AList.update\<close>; \<^verbatim>\<open>del d[k]\<close> raises
    \<open>KeyError\<close> on a missing key;
  \<^item> every public method takes the manager and returns its result, the manager after
    the call and the calls it made, in order, to the credential verifiers and to the
    one-time-password verifier;
  \<^item> the secret file, the monotonic clock, the random source and the password
    verifiers are collaborators outside this module: they are fields of a \<open>world\<close>
    record or of a \<open>service\<close> record, and each may fail with an error of its own;
  \<^item> calls to the logger are not modelled: they do not influence any returned value
    or the session table. The decorator on \<^verbatim>\<open>cleanup\<close> (protection of the running
    task against cancellation) is not modelled either.
\<close>

subsection \<open>Strings\<close>

definition isspace :: "char \<Rightarrow> bool" where
  "isspace c = (of_char c \<in> {9, 10, 11, 12, 13, 28, 29, 30, 31, 32, 133, 160 :: nat})"

text \<open>\<^verbatim>\<open>s.strip()\<close>: leading and trailing whitespace removed.\<close>

definition strip :: "string \<Rightarrow> string" where
  "strip s = rev (dropWhile isspace (rev (dropWhile isspace s)))"

text \<open>\<^verbatim>\<open>s[-n:]\<close> and \<^verbatim>\<open>s[:-n]\<close> for a positive literal \<open>n\<close>.\<close>

definition slice_last :: "nat \<Rightarrow> 'a list \<Rightarrow> 'a list" where
  "slice_last n s = drop (length s - n) s"

definition slice_but_last :: "nat \<Rightarrow> 'a list \<Rightarrow> 'a list" where
  "slice_but_last n s = take (length s - n) s"

subsection \<open>Errors, sessions, collaborators\<close>

datatype error =
    AssertionError string
  | KeyError string
  | Raised string

record session =
  user :: string
  expire_ts :: int

text \<open>The constructor of the frozen dataclass with its \<^verbatim>\<open>__post_init__\<close>.\<close>

definition Session :: "string \<Rightarrow> int \<Rightarrow> error + session" where
  "Session usr ts =
     (if strip usr = [] then Inl (AssertionError [])
      else if usr = [] then Inl (AssertionError [])
      else if \<not> ts \<ge> 0 then Inl (AssertionError [])
      else Inr \<lparr>user = usr, expire_ts = ts\<rparr>)"

type_synonym sessions_dict = "(string \<times> session) list"

definition dict_del :: "'k \<Rightarrow> ('k \<times> 'v) list \<Rightarrow> error + ('k \<times> 'v) list" where
  "dict_del k d =
     (case map_of d k of
        None \<Rightarrow> Inl (KeyError [])
      | Some _ \<Rightarrow> Inr (AList.delete k d))"

text \<open>
  What the manager uses of a \<^verbatim>\<open>BaseAuthService\<close>: its name, its password check and its
  cleanup hook. A service object is truthy.
\<close>

record service =
  get_plugin_name :: string
  service_authorize :: "string \<Rightarrow> string \<Rightarrow> error + bool"
  service_cleanup :: "error + unit"

text \<open>
  \<open>file_read p\<close> is \<^verbatim>\<open>open(p).read()\<close>; \<open>totp_verify secret code w\<close> is
  \<^verbatim>\<open>pyotp.TOTP(secret).verify(code, valid_window=w)\<close> at the time of the call;
  \<open>token_hex i\<close> is the value of the \<open>i\<close>-th call of \<^verbatim>\<open>secrets.token_hex(32)\<close> from now
  on; \<open>monotonic\<close> is \<^verbatim>\<open>int(time.monotonic())\<close>.
\<close>

record world =
  file_read :: "string \<Rightarrow> error + string"
  totp_verify :: "string \<Rightarrow> string \<Rightarrow> nat \<Rightarrow> error + bool"
  token_hex :: "nat \<Rightarrow> string"
  monotonic :: int

datatype which = Internal | External

datatype event =
    Totp_verify string string nat
  | Service_authorize which string string
  | Service_cleanup which

text \<open>What the manager reads of an \<^verbatim>\<open>HttpExposed\<close>.\<close>

record http_exposed =
  path :: string
  auth_required :: bool

record auth_manager =
  enabled :: bool
  unauth_paths :: "string set"
  internal_service :: "service option"
  force_internal_users :: "string list"
  external_service :: "service option"
  totp_secret_path :: string
  sessions :: sessions_dict

type_synonym 'a outcome = "(error + 'a) \<times> auth_manager \<times> event list"

subsection \<open>Construction\<close>

text \<open>
  \<open>get_auth_service_class t kw\<close> stands for \<^verbatim>\<open>get_auth_service_class(t)(**kw)\<close>, the
  plugin registry of another module.
\<close>

definition init ::
  "(string \<Rightarrow> 'kw \<Rightarrow> error + service) \<Rightarrow> bool \<Rightarrow> string list \<Rightarrow> string \<Rightarrow> 'kw \<Rightarrow>
   string list \<Rightarrow> string \<Rightarrow> 'kw \<Rightarrow> string \<Rightarrow> error + auth_manager" where
  "init get_auth_service_class enabled' unauth_paths' internal_type internal_kwargs
        force_internal_users' external_type external_kwargs totp_secret_path' =
     (case (if enabled'
            then map_sum id Some (get_auth_service_class internal_type internal_kwargs)
            else Inr None) of
        Inl e \<Rightarrow> Inl e
      | Inr internal \<Rightarrow>
          (case (if enabled' \<and> external_type \<noteq> []
                 then map_sum id Some (get_auth_service_class external_type external_kwargs)
                 else Inr None) of
             Inl e \<Rightarrow> Inl e
           | Inr external \<Rightarrow>
               Inr \<lparr>enabled = enabled',
                    unauth_paths = set unauth_paths',
                    internal_service = internal,
                    force_internal_users = force_internal_users',
                    external_service = external,
                    totp_secret_path = totp_secret_path',
                    sessions = []\<rparr>))"

subsection \<open>Authorization gating\<close>

definition is_auth_enabled :: "auth_manager \<Rightarrow> bool outcome" where
  "is_auth_enabled m = (Inr (enabled m), m, [])"

definition is_auth_required :: "auth_manager \<Rightarrow> http_exposed \<Rightarrow> bool outcome" where
  "is_auth_required m exposed =
     (case is_auth_enabled m of
        (Inl e, m1, tr) \<Rightarrow> (Inl e, m1, tr)
      | (Inr en, m1, tr) \<Rightarrow>
          (Inr (en \<and> auth_required exposed \<and> path exposed \<notin> unauth_paths m1), m1, tr))"

subsection \<open>Credential verification\<close>

text \<open>
  Lines 107 to 115: the second factor. The result is \<open>None\<close> when the code is refused
  and the password to hand to the backend otherwise.
\<close>

definition totp_gate ::
  "world \<Rightarrow> auth_manager \<Rightarrow> string \<Rightarrow> (error + string option) \<times> event list" where
  "totp_gate w m passwd =
     (if totp_secret_path m \<noteq> [] then
        (case file_read w (totp_secret_path m) of
           Inl e \<Rightarrow> (Inl e, [])
         | Inr content \<Rightarrow>
             (let secret = strip content in
              if secret \<noteq> [] then
                (let code = slice_last 6 passwd in
                 case totp_verify w secret code 1 of
                   Inl e \<Rightarrow> (Inl e, [Totp_verify secret code 1])
                 | Inr ok \<Rightarrow>
                     if \<not> ok then (Inr None, [Totp_verify secret code 1])
                     else (Inr (Some (slice_but_last 6 passwd)), [Totp_verify secret code 1]))
              else (Inr (Some passwd), [])))
      else (Inr (Some passwd), []))"

text \<open>Lines 117 to 120: the choice of the backend.\<close>

definition select_service :: "auth_manager \<Rightarrow> service \<Rightarrow> string \<Rightarrow> which \<times> service" where
  "select_service m internal usr =
     (case external_service m of
        Some external \<Rightarrow>
          if usr \<notin> set (force_internal_users m) then (External, external)
          else (Internal, internal)
      | None \<Rightarrow> (Internal, internal))"

definition authorize :: "world \<Rightarrow> auth_manager \<Rightarrow> string \<Rightarrow> string \<Rightarrow> bool outcome" where
  "authorize w m usr passwd =
     (if usr \<noteq> strip usr then (Inl (AssertionError []), m, [])
      else if usr = [] then (Inl (AssertionError []), m, [])
      else if \<not> enabled m then (Inl (AssertionError []), m, [])
      else
        (case internal_service m of
           None \<Rightarrow> (Inl (AssertionError []), m, [])
         | Some internal \<Rightarrow>
             (case totp_gate w m passwd of
                (Inl e, tr) \<Rightarrow> (Inl e, m, tr)
              | (Inr None, tr) \<Rightarrow> (Inr False, m, tr)
              | (Inr (Some passwd1), tr) \<Rightarrow>
                  (case select_service m internal usr of
                     (wh, svc) \<Rightarrow>
                       (case service_authorize svc usr passwd1 of
                          Inl e \<Rightarrow> (Inl e, m, tr @ [Service_authorize wh usr passwd1])
                        | Inr ok \<Rightarrow> (Inr ok, m, tr @ [Service_authorize wh usr passwd1]))))))"

subsection \<open>Sessions\<close>

definition get_now_ts :: "world \<Rightarrow> int" where
  "get_now_ts w = monotonic w"

text \<open>
  The loop of \<^verbatim>\<open>__make_new_token\<close>: \<open>n\<close> iterations are left and \<open>i\<close> values have been
  drawn. The result carries the number of values drawn.
\<close>

fun make_new_token_loop :: "world \<Rightarrow> sessions_dict \<Rightarrow> nat \<Rightarrow> nat \<Rightarrow> (error + string) \<times> nat" where
  "make_new_token_loop w d 0 i =
     (Inl (AssertionError ''Can't generate new unique token''), i)"
| "make_new_token_loop w d (Suc n) i =
     (let token = token_hex w i in
      if map_of d token = None then (Inr token, Suc i)
      else make_new_token_loop w d n (Suc i))"

definition make_new_token :: "world \<Rightarrow> auth_manager \<Rightarrow> (error + string) \<times> nat" where
  "make_new_token w m = make_new_token_loop w (sessions m) 10 0"

definition login ::
  "world \<Rightarrow> auth_manager \<Rightarrow> string \<Rightarrow> string \<Rightarrow> int \<Rightarrow> string option outcome" where
  "login w m usr passwd expire =
     (if usr \<noteq> strip usr then (Inl (AssertionError []), m, [])
      else if usr = [] then (Inl (AssertionError []), m, [])
      else if \<not> expire \<ge> 0 then (Inl (AssertionError []), m, [])
      else if \<not> enabled m then (Inl (AssertionError []), m, [])
      else
        (case authorize w m usr passwd of
           (Inl e, m1, tr) \<Rightarrow> (Inl e, m1, tr)
         | (Inr ok, m1, tr) \<Rightarrow>
             if ok then
               (case fst (make_new_token w m1) of
                  Inl e \<Rightarrow> (Inl e, m1, tr)
                | Inr token \<Rightarrow>
                    (case Session usr (if expire \<le> 0 then 0 else get_now_ts w + expire) of
                       Inl e \<Rightarrow> (Inl e, m1, tr)
                     | Inr s \<Rightarrow>
                         (Inr (Some token),
                          m1\<lparr>sessions := AList.update token s (sessions m1)\<rparr>,
                          tr)))
             else (Inr None, m1, tr)))"

text \<open>
  The loop of \<^verbatim>\<open>logout\<close> over the snapshot \<^verbatim>\<open>list(self.__sessions.items())\<close>, with the
  counter and the dictionary it updates.
\<close>

fun logout_loop ::
  "string \<Rightarrow> (string \<times> session) list \<Rightarrow> nat \<Rightarrow> sessions_dict \<Rightarrow> error + nat \<times> sessions_dict" where
  "logout_loop usr [] count d = Inr (count, d)"
| "logout_loop usr ((key_t, s) # items) count d =
     (if user s = usr then
        (case dict_del key_t d of
           Inl e \<Rightarrow> Inl e
         | Inr d1 \<Rightarrow> logout_loop usr items (count + 1) d1)
      else logout_loop usr items count d)"

definition logout :: "auth_manager \<Rightarrow> string \<Rightarrow> unit outcome" where
  "logout m token =
     (if \<not> enabled m then (Inl (AssertionError []), m, [])
      else
        (case map_of (sessions m) token of
           Some s0 \<Rightarrow>
             (let usr = user s0 in
              case logout_loop usr (sessions m) 0 (sessions m) of
                Inl e \<Rightarrow> (Inl e, m, [])
              | Inr (count, d) \<Rightarrow> (Inr (), m\<lparr>sessions := d\<rparr>, []))
         | None \<Rightarrow> (Inr (), m, [])))"

definition check :: "world \<Rightarrow> auth_manager \<Rightarrow> string \<Rightarrow> string option outcome" where
  "check w m token =
     (if \<not> enabled m then (Inl (AssertionError []), m, [])
      else
        (case map_of (sessions m) token of
           Some s \<Rightarrow>
             if expire_ts s \<le> 0 then
               (if user s = [] then (Inl (AssertionError []), m, [])
                else (Inr (Some (user s)), m, []))
             else
               (if get_now_ts w < expire_ts s then
                  (if user s = [] then (Inl (AssertionError []), m, [])
                   else (Inr (Some (user s)), m, []))
                else
                  (case dict_del token (sessions m) of
                     Inl e \<Rightarrow> (Inl e, m, [])
                   | Inr d \<Rightarrow> (Inr None, m\<lparr>sessions := d\<rparr>, [])))
         | None \<Rightarrow> (Inr None, m, [])))"

subsection \<open>Shutdown\<close>

definition cleanup :: "auth_manager \<Rightarrow> unit outcome" where
  "cleanup m =
     (if enabled m then
        (case internal_service m of
           None \<Rightarrow> (Inl (AssertionError []), m, [])
         | Some internal \<Rightarrow>
             (case service_cleanup internal of
                Inl e \<Rightarrow> (Inl e, m, [Service_cleanup Internal])
              | Inr _ \<Rightarrow>
                  (case external_service m of
                     Some external \<Rightarrow>
                       (case service_cleanup external of
                          Inl e \<Rightarrow> (Inl e, m, [Service_cleanup Internal, Service_cleanup External])
                        | Inr _ \<Rightarrow> (Inr (), m, [Service_cleanup Internal, Service_cleanup External]))
                   | None \<Rightarrow> (Inr (), m, [Service_cleanup Internal]))))
      else (Inr (), m, []))"

subsection \<open>Invariants of the session table\<close>

text \<open>
  What \<^verbatim>\<open>__post_init__\<close> asserts of a session, and what a Python dictionary guarantees
  of its keys.
\<close>

definition session_ok :: "session \<Rightarrow> bool" where
  "session_ok s = (strip (user s) \<noteq> [] \<and> user s \<noteq> [] \<and> expire_ts s \<ge> 0)"

definition sessions_ok :: "sessions_dict \<Rightarrow> bool" where
  "sessions_ok d = list_all (\<lambda>(t, s). session_ok s) d"

definition keys_unique :: "('k \<times> 'v) list \<Rightarrow> bool" where
  "keys_unique d = distinct (map fst d)"

subsection \<open>Example configurations\<close>

definition demo_service :: "string \<Rightarrow> string \<Rightarrow> service" where
  "demo_service name good =
     \<lparr>get_plugin_name = name,
      service_authorize = (\<lambda>usr passwd. Inr (passwd = good)),
      service_cleanup = Inr ()\<rparr>"

definition broken_service :: service where
  "broken_service =
     \<lparr>get_plugin_name = ''htpasswd'',
      service_authorize = (\<lambda>usr passwd. Inr False),
      service_cleanup = Inl (Raised ''OSError'')\<rparr>"

definition demo_world :: world where
  "demo_world =
     \<lparr>file_read = (\<lambda>p.
        if p = ''totp.secret'' then Inr (''BASE32SECRET'' @ [CHR 0x0A])
        else if p = ''blank.secret'' then Inr [CHR 0x20, CHR 0x0A]
        else Inl (Raised ''FileNotFoundError'')),
      totp_verify = (\<lambda>secret code win. Inr (secret = ''BASE32SECRET'' \<and> code = ''123456'')),
      token_hex = (\<lambda>i. if i = 0 then ''aa'' else ''bb''),
      monotonic = 100\<rparr>"

definition stuck_world :: world where
  "stuck_world = demo_world\<lparr>token_hex := (\<lambda>i. ''aa'')\<rparr>"

definition demo_sessions :: sessions_dict where
  "demo_sessions =
     [(''aa'', \<lparr>user = ''alice'', expire_ts = 0\<rparr>),
      (''cc'', \<lparr>user = ''bob'', expire_ts = 150\<rparr>),
      (''dd'', \<lparr>user = ''alice'', expire_ts = 50\<rparr>)]"

definition demo_manager :: auth_manager where
  "demo_manager =
     \<lparr>enabled = True,
      unauth_paths = {''/api/info''},
      internal_service = Some (demo_service ''htpasswd'' ''pw1''),
      force_internal_users = [''admin''],
      external_service = Some (demo_service ''pam'' ''pw2''),
      totp_secret_path = [],
      sessions = demo_sessions\<rparr>"

definition disabled_manager :: auth_manager where
  "disabled_manager =
     \<lparr>enabled = False,
      unauth_paths = {},
      internal_service = None,
      force_internal_users = [],
      external_service = None,
      totp_secret_path = [],
      sessions = []\<rparr>"

definition late_world :: world where
  "late_world = demo_world\<lparr>monotonic := 150\<rparr>"

definition totp_manager :: auth_manager where
  "totp_manager = demo_manager\<lparr>totp_secret_path := ''totp.secret''\<rparr>"

definition blank_manager :: auth_manager where
  "blank_manager = demo_manager\<lparr>totp_secret_path := ''blank.secret''\<rparr>"

definition broken_manager :: auth_manager where
  "broken_manager = demo_manager\<lparr>internal_service := Some broken_service\<rparr>"

subsection \<open>Reachable managers\<close>

text \<open>
  The managers a program can hold: one fresh from the constructor, whose table is
  empty, and whatever \<open>login\<close>, \<open>check\<close> and \<open>logout\<close> make of a reachable one (the
  other methods return the manager they were given).
\<close>

inductive reachable :: "auth_manager \<Rightarrow> bool" where
  fresh: "sessions m = [] \<Longrightarrow> reachable m"
| after_login: "reachable m \<Longrightarrow> login w m usr passwd expire = (r, m', tr) \<Longrightarrow> reachable m'"
| after_check: "reachable m \<Longrightarrow> check w m token = (r', m', tr) \<Longrightarrow> reachable m'"
| after_logout: "reachable m \<Longrightarrow> logout m token = (r'', m', tr) \<Longrightarrow> reachable m'"

section \<open>Properties\<close>

subsection \<open>Authorization gating\<close>

text \<open>
  Claim C8. For every path and every declared requirement, \<open>is_auth_required\<close> returns
  exactly: enabled, and the request declares that authorization is required, and its
  path is not among the unauthenticated paths. It cannot fail, leaves the manager as
  it was and calls no collaborator.
\<close>

theorem is_auth_required_spec:
  "is_auth_required m exposed =
     (Inr (enabled m \<and> auth_required exposed \<and> path exposed \<notin> unauth_paths m), m, [])"
  by (simp add: is_auth_required_def is_auth_enabled_def)

subsection \<open>The disabled manager\<close>

lemma init_disabled:
  "init g False ps it ik fu et ek tp = Inr m \<Longrightarrow>
     \<not> enabled m \<and> internal_service m = None \<and> external_service m = None \<and> sessions m = []"
  by (auto simp add: init_def)

lemma init_enabled:
  "init g True ps it ik fu et ek tp = Inr m \<Longrightarrow>
     enabled m \<and> internal_service m \<noteq> None \<and> sessions m = []"
  by (cases "g it ik"; cases "g et ek") (auto simp add: init_def split: if_splits)

text \<open>
  Claim C9. On a manager whose \<open>enabled\<close> is false, \<open>authorize\<close>, \<open>login\<close>,
  \<open>check\<close> and \<open>logout\<close> each end in a failed assertion, whatever their arguments,
  and leave the manager as it was.
\<close>

theorem disabled_operations_assert:
  "\<not> enabled m \<Longrightarrow>
     authorize w m usr passwd = (Inl (AssertionError []), m, []) \<and>
     login w m usr passwd expire = (Inl (AssertionError []), m, []) \<and>
     check w m token = (Inl (AssertionError []), m, []) \<and>
     logout m token = (Inl (AssertionError []), m, [])"
  by (simp add: authorize_def login_def check_def logout_def)

theorem disabled_operations_assert_witness:
  "\<not> enabled disabled_manager \<and>
   authorize demo_world disabled_manager ''alice'' ''pw1'' =
     (Inl (AssertionError []), disabled_manager, []) \<and>
   login demo_world disabled_manager ''alice'' ''pw1'' 60 =
     (Inl (AssertionError []), disabled_manager, []) \<and>
   check demo_world disabled_manager ''aa'' = (Inl (AssertionError []), disabled_manager, []) \<and>
   logout disabled_manager ''aa'' = (Inl (AssertionError []), disabled_manager, [])"
  using disabled_operations_assert
    [of disabled_manager demo_world "''alice''" "''pw1''" 60 "''aa''"]
  by (simp add: disabled_manager_def)

subsection \<open>Token generation\<close>

lemma make_new_token_loop_spec:
  "(case make_new_token_loop w d n i of
      (Inr token, k) \<Rightarrow>
         i < k \<and> k \<le> i + n \<and> token = token_hex w (k - 1) \<and> map_of d token = None \<and>
         (\<forall>j. i \<le> j \<and> j < k - 1 \<longrightarrow> map_of d (token_hex w j) \<noteq> None)
    | (Inl e, k) \<Rightarrow>
         e = AssertionError ''Can't generate new unique token'' \<and> k = i + n \<and>
         (\<forall>j. i \<le> j \<and> j < i + n \<longrightarrow> map_of d (token_hex w j) \<noteq> None))"
proof (induction n arbitrary: i)
  case 0
  show ?case by auto
next
  case (Suc n)
  show ?case
  proof (cases "map_of d (token_hex w i) = None")
    case True
    then show ?thesis by auto
  next
    case False
    have step: "make_new_token_loop w d (Suc n) i = make_new_token_loop w d n (Suc i)"
      using False by (auto simp: Let_def)
    have bound: "\<And>j. i \<le> j \<Longrightarrow> j \<noteq> i \<Longrightarrow> Suc i \<le> j" by arith
    show ?thesis
      using Suc.IH[of "Suc i"] False unfolding step
      by (auto split: prod.splits sum.splits simp: le_Suc_eq dest!: bound)
  qed
qed

text \<open>
  Claim C7. The token generator always returns or raises. A token it returns is not a
  key of the session table, is the last value drawn, and at most ten values were
  drawn, all earlier ones being keys of the table. It raises, with the assertion
  error of the source, exactly after ten values that are all keys of the table.
\<close>

theorem make_new_token_spec:
  "(case make_new_token w m of
      (Inr token, k) \<Rightarrow>
         map_of (sessions m) token = None \<and> 0 < k \<and> k \<le> 10 \<and> token = token_hex w (k - 1) \<and>
         (\<forall>j < k - 1. map_of (sessions m) (token_hex w j) \<noteq> None)
    | (Inl e, k) \<Rightarrow>
         e = AssertionError ''Can't generate new unique token'' \<and> k = 10 \<and>
         (\<forall>j < 10. map_of (sessions m) (token_hex w j) \<noteq> None))"
  using make_new_token_loop_spec[where w = w and d = "sessions m" and n = 10 and i = 0]
  by (auto simp: make_new_token_def split: prod.splits sum.splits)

theorem make_new_token_spec_witness:
  "make_new_token demo_world demo_manager = (Inr ''bb'', 2) \<and>
   map_of (sessions demo_manager) ''bb'' = None \<and>
   map_of (sessions demo_manager) (token_hex demo_world 0) \<noteq> None \<and>
   make_new_token stuck_world demo_manager =
     (Inl (AssertionError ''Can't generate new unique token''), 10) \<and>
   map_of (sessions demo_manager) (token_hex stuck_world 9) \<noteq> None"
  using make_new_token_spec[where w = demo_world and m = demo_manager]
        make_new_token_spec[where w = stuck_world and m = demo_manager]
  by (simp add: make_new_token_def stuck_world_def demo_world_def demo_manager_def demo_sessions_def eval_nat_numeral)

subsection \<open>Logout\<close>

lemma dict_del_present:
  "map_of d k = Some v \<Longrightarrow> dict_del k d = Inr (AList.delete k d)"
  by (simp add: dict_del_def)

lemma delete_filter: "AList.delete k d = filter (\<lambda>(k', v). k' \<noteq> k) d"
  by (induction d) (auto simp: AList.delete_eq)

lemma logout_loop_general:
  "distinct (map fst items) \<Longrightarrow> set items \<subseteq> set d \<Longrightarrow>
   logout_loop usr items count d =
     Inr (count + length (filter (\<lambda>(k, s). user s = usr) items),
          filter (\<lambda>(k, s). k \<notin> fst ` set (filter (\<lambda>(k, s). user s = usr) items)) d)"
proof (induction items arbitrary: count d)
  case Nil
  then show ?case by simp
next
  case (Cons a items)
  obtain k s where a: "a = (k, s)" by (cases a)
  show ?case
  proof (cases "user s = usr")
    case False
    with Cons a show ?thesis by simp
  next
    case True
    from Cons.prems a have kd: "(k, s) \<in> set d" by simp
    then have "map_of d k \<noteq> None"
      by (metis image_eqI map_of_eq_None_iff fst_conv)
    then obtain v where "map_of d k = Some v" by blast
    then have del: "dict_del k d = Inr (AList.delete k d)" by (rule dict_del_present)
    from Cons.prems a have dist: "distinct (map fst items)" and knot: "k \<notin> fst ` set items"
      by auto
    have sub: "set items \<subseteq> set (AList.delete k d)"
    proof
      fix x assume x: "x \<in> set items"
      with Cons.prems have "x \<in> set d" by auto
      moreover from x knot have "fst x \<noteq> k" by auto
      ultimately show "x \<in> set (AList.delete k d)"
        by (auto simp: delete_filter)
    qed
    have "logout_loop usr (a # items) count d = logout_loop usr items (count + 1) (AList.delete k d)"
      using a True del by simp
    also have "\<dots> = Inr (count + 1 + length (filter (\<lambda>(k, s). user s = usr) items),
          filter (\<lambda>(k, s). k \<notin> fst ` set (filter (\<lambda>(k, s). user s = usr) items)) (AList.delete k d))"
      using Cons.IH[OF dist sub] .
    also have "\<dots> = Inr (count + length (filter (\<lambda>(k, s). user s = usr) (a # items)),
          filter (\<lambda>(k, s). k \<notin> fst ` set (filter (\<lambda>(k, s). user s = usr) (a # items))) d)"
      using a True by (auto simp: delete_filter intro!: filter_cong)
    finally show ?thesis .
  qed
qed

lemma logout_loop_whole:
  assumes "distinct (map fst d)"
  shows "logout_loop usr d 0 d =
     Inr (length (filter (\<lambda>(k, s). user s = usr) d), filter (\<lambda>(k, s). user s \<noteq> usr) d)"
proof -
  have "filter (\<lambda>(k, s). k \<notin> fst ` set (filter (\<lambda>(k, s). user s = usr) d)) d
        = filter (\<lambda>(k, s). user s \<noteq> usr) d"
  proof (rule filter_cong[OF refl])
    fix x assume x: "x \<in> set d"
    obtain k s where xs: "x = (k, s)" by (cases x)
    have "k \<in> fst ` set (filter (\<lambda>(k, s). user s = usr) d) \<longleftrightarrow> user s = usr"
    proof
      assume "k \<in> fst ` set (filter (\<lambda>(k, s). user s = usr) d)"
      then obtain s' where s': "(k, s') \<in> set d" "user s' = usr" by auto
      from assms x xs s'(1) have "s' = s" by (meson eq_key_imp_eq_value)
      with s' show "user s = usr" by simp
    next
      assume "user s = usr"
      with x xs show "k \<in> fst ` set (filter (\<lambda>(k, s). user s = usr) d)" by force
    qed
    then show "(case x of (k, s) \<Rightarrow> k \<notin> fst ` set (filter (\<lambda>(k, s). user s = usr) d))
               = (case x of (k, s) \<Rightarrow> user s \<noteq> usr)"
      using xs by simp
  qed
  then show ?thesis
    using logout_loop_general[OF assms subset_refl, of usr 0] by simp
qed

lemma map_of_filter_user:
  "distinct (map fst d) \<Longrightarrow>
   map_of (filter (\<lambda>(k, s). user s \<noteq> usr) d) k =
     (case map_of d k of None \<Rightarrow> None | Some s \<Rightarrow> if user s = usr then None else Some s)"
proof (induction d)
  case Nil
  then show ?case by simp
next
  case (Cons a d)
  obtain k' s' where a: "a = (k', s')" by (cases a)
  from Cons.prems a have notin: "k' \<notin> fst ` set d" and dist: "distinct (map fst d)" by auto
  show ?case
  proof (cases "k = k'")
    case True
    with notin have "map_of (filter (\<lambda>(k, s). user s \<noteq> usr) d) k = None"
      by (auto simp: map_of_eq_None_iff)
    with True a show ?thesis by simp
  next
    case False
    with a Cons.IH[OF dist] show ?thesis by simp
  qed
qed

lemma logout_known:
  assumes "enabled m" "keys_unique (sessions m)" "map_of (sessions m) token = Some s0"
  shows "logout m token =
     (Inr (), m\<lparr>sessions := filter (\<lambda>(k, s). user s \<noteq> user s0) (sessions m)\<rparr>, [])"
  using assms logout_loop_whole[of "sessions m" "user s0"]
  by (simp add: logout_def keys_unique_def)

lemma logout_unknown:
  "enabled m \<Longrightarrow> map_of (sessions m) token = None \<Longrightarrow> logout m token = (Inr (), m, [])"
  by (simp add: logout_def)

lemma check_absent:
  "enabled m \<Longrightarrow> map_of (sessions m) token = None \<Longrightarrow> check w m token = (Inr None, m, [])"
  by (simp add: check_def)

text \<open>
  Claim C3. On an enabled manager, \<open>logout\<close> of a token of the table removes every
  entry whose user is that token's user and keeps every other entry, in order; every
  removed token then fails \<open>check\<close>. \<open>logout\<close> of an unknown token returns
  without error and leaves the manager as it was.
\<close>

theorem logout_spec:
  "enabled m \<Longrightarrow> keys_unique (sessions m) \<Longrightarrow>
   (case map_of (sessions m) token of
      None \<Rightarrow> logout m token = (Inr (), m, [])
    | Some s0 \<Rightarrow>
        (\<exists>m'. logout m token = (Inr (), m', []) \<and>
          m' = m\<lparr>sessions := filter (\<lambda>(k, s). user s \<noteq> user s0) (sessions m)\<rparr> \<and>
          (\<forall>k. map_of (sessions m') k =
             (case map_of (sessions m) k of
                None \<Rightarrow> None
              | Some s \<Rightarrow> if user s = user s0 then None else Some s)) \<and>
          (\<forall>k s w. map_of (sessions m) k = Some s \<and> user s = user s0 \<longrightarrow>
             check w m' k = (Inr None, m', []))))"
proof (cases "map_of (sessions m) token")
  case None
  assume "enabled m"
  with None show ?thesis by (simp add: logout_unknown)
next
  case (Some s0)
  assume en: "enabled m" and ku: "keys_unique (sessions m)"
  let ?m' = "m\<lparr>sessions := filter (\<lambda>(k, s). user s \<noteq> user s0) (sessions m)\<rparr>"
  have l: "logout m token = (Inr (), ?m', [])"
    using en ku Some by (rule logout_known)
  have look: "\<And>k. map_of (sessions ?m') k =
             (case map_of (sessions m) k of
                None \<Rightarrow> None
              | Some s \<Rightarrow> if user s = user s0 then None else Some s)"
    using ku by (simp add: keys_unique_def map_of_filter_user)
  have chk: "\<And>k s w. map_of (sessions m) k = Some s \<and> user s = user s0 \<Longrightarrow>
             check w ?m' k = (Inr None, ?m', [])"
  proof -
    fix k s w assume h: "map_of (sessions m) k = Some s \<and> user s = user s0"
    then have "map_of (sessions ?m') k = None" using look[of k] by simp
    moreover have "enabled ?m'" using en by simp
    ultimately show "check w ?m' k = (Inr None, ?m', [])" by (rule check_absent[rotated])
  qed
  show ?thesis
    unfolding Some option.case using l look chk by blast
qed

theorem logout_spec_witness:
  "enabled demo_manager \<and> keys_unique (sessions demo_manager) \<and>
   logout demo_manager ''dd'' =
     (Inr (), demo_manager\<lparr>sessions := [(''cc'', \<lparr>user = ''bob'', expire_ts = 150\<rparr>)]\<rparr>, []) \<and>
   logout demo_manager ''zz'' = (Inr (), demo_manager, [])"
  using logout_spec[of demo_manager "''dd''"] logout_spec[of demo_manager "''zz''"]
  by (simp add: demo_manager_def demo_sessions_def keys_unique_def)

subsection \<open>Token validation\<close>

lemma sessions_ok_lookup:
  "sessions_ok d \<Longrightarrow> map_of d k = Some s \<Longrightarrow> session_ok s"
  by (auto simp: sessions_ok_def list_all_iff dest: map_of_SomeD)

lemma check_present:
  assumes "enabled m" "map_of (sessions m) token = Some s" "user s \<noteq> []"
  shows "check w m token =
     (if expire_ts s \<le> 0 \<or> monotonic w < expire_ts s then (Inr (Some (user s)), m, [])
      else (Inr None, m\<lparr>sessions := AList.delete token (sessions m)\<rparr>, []))"
  using assms by (simp add: check_def get_now_ts_def dict_del_def)

text \<open>
  Claim C2. On an enabled manager whose sessions satisfy the constructor's
  assertions, \<open>check\<close> of a token that is not in the table returns none and leaves
  the manager as it was; for a session with \<open>expire_ts = 0\<close>, and for one with
  \<open>now < expire_ts\<close>, it returns the session's user and leaves the manager as it was;
  otherwise it returns none and removes that token's entry and no other, so that any
  later \<open>check\<close> of the token returns none and changes nothing.
\<close>

theorem check_spec:
  "enabled m \<Longrightarrow> sessions_ok (sessions m) \<Longrightarrow>
   (case map_of (sessions m) token of
      None \<Rightarrow> check w m token = (Inr None, m, [])
    | Some s \<Rightarrow>
        (expire_ts s = 0 \<longrightarrow> check w m token = (Inr (Some (user s)), m, [])) \<and>
        (monotonic w < expire_ts s \<longrightarrow> check w m token = (Inr (Some (user s)), m, [])) \<and>
        (expire_ts s \<noteq> 0 \<and> \<not> monotonic w < expire_ts s \<longrightarrow>
           (\<exists>m'. check w m token = (Inr None, m', []) \<and>
              m' = m\<lparr>sessions := filter (\<lambda>(k, v). k \<noteq> token) (sessions m)\<rparr> \<and>
              map_of (sessions m') = (map_of (sessions m))(token := None) \<and>
              (\<forall>w'. check w' m' token = (Inr None, m', [])))))"
proof (cases "map_of (sessions m) token")
  case None
  assume "enabled m"
  with None show ?thesis by (simp add: check_absent)
next
  case (Some s)
  assume en: "enabled m" and ok: "sessions_ok (sessions m)"
  from ok Some have sok: "session_ok s" by (rule sessions_ok_lookup)
  then have u: "user s \<noteq> []" and e: "0 \<le> expire_ts s" by (simp_all add: session_ok_def)
  note c = check_present[OF en Some u, of w]
  let ?m' = "m\<lparr>sessions := filter (\<lambda>(k, v). k \<noteq> token) (sessions m)\<rparr>"
  have del: "AList.delete token (sessions m) = filter (\<lambda>(k, v). k \<noteq> token) (sessions m)"
    by (rule delete_filter)
  have gone: "map_of (sessions ?m') = (map_of (sessions m))(token := None)"
    using AList.delete_conv'[of token "sessions m"] del by simp
  have again: "\<And>w'. check w' ?m' token = (Inr None, ?m', [])"
    using en gone by (intro check_absent) simp_all
  have a: "expire_ts s = 0 \<longrightarrow> check w m token = (Inr (Some (user s)), m, [])"
    using c by simp
  have b: "monotonic w < expire_ts s \<longrightarrow> check w m token = (Inr (Some (user s)), m, [])"
    using c by simp
  have d: "expire_ts s \<noteq> 0 \<and> \<not> monotonic w < expire_ts s \<longrightarrow>
             check w m token = (Inr None, ?m', [])"
    using c e del by auto
  show ?thesis
    unfolding Some option.case using a b d gone again by blast
qed

theorem check_spec_witness:
  "enabled demo_manager \<and> sessions_ok (sessions demo_manager) \<and>
   check demo_world demo_manager ''zz'' = (Inr None, demo_manager, []) \<and>
   check demo_world demo_manager ''aa'' = (Inr (Some ''alice''), demo_manager, []) \<and>
   check demo_world demo_manager ''cc'' = (Inr (Some ''bob''), demo_manager, []) \<and>
   check late_world demo_manager ''cc'' =
     (Inr None,
      demo_manager\<lparr>sessions :=
        [(''aa'', \<lparr>user = ''alice'', expire_ts = 0\<rparr>),
         (''dd'', \<lparr>user = ''alice'', expire_ts = 50\<rparr>)]\<rparr>, [])"
  using check_spec[where m = demo_manager and token = "''zz''" and w = demo_world]
        check_spec[where m = demo_manager and token = "''aa''" and w = demo_world]
        check_spec[where m = demo_manager and token = "''cc''" and w = demo_world]
        check_spec[where m = demo_manager and token = "''cc''" and w = late_world]
  by (simp add: demo_manager_def demo_sessions_def demo_world_def late_world_def
        sessions_ok_def session_ok_def strip_def isspace_def)

subsection \<open>Credential verification\<close>

lemma slice_parts: "slice_but_last n s @ slice_last n s = s"
  by (simp add: slice_but_last_def slice_last_def)

lemma slice_last_length: "length (slice_last n s) = min n (length s)"
  by (simp add: slice_last_def)

lemma strip_all_space: "list_all isspace s \<Longrightarrow> strip s = []"
proof -
  assume a: "list_all isspace s"
  then have "dropWhile isspace s = []"
    unfolding dropWhile_eq_Nil_conv list_all_iff .
  then show ?thesis by (simp only: strip_def rev.simps dropWhile.simps)
qed

lemma strip_empty_iff: "strip s = [] \<longleftrightarrow> list_all isspace s"
proof
  assume "strip s = []"
  then have "dropWhile isspace (rev (dropWhile isspace s)) = []" by (simp add: strip_def)
  then have "\<forall>c \<in> set (rev (dropWhile isspace s)). isspace c" by (simp only: dropWhile_eq_Nil_conv)
  then have all: "\<forall>c \<in> set (dropWhile isspace s). isspace c" by simp
  have "dropWhile isspace s = []"
  proof (rule ccontr)
    assume ne: "dropWhile isspace s \<noteq> []"
    then have "\<not> isspace (hd (dropWhile isspace s))" by (rule hd_dropWhile)
    moreover from ne have "hd (dropWhile isspace s) \<in> set (dropWhile isspace s)" by simp
    ultimately show False using all by blast
  qed
  then show "list_all isspace s"
    unfolding dropWhile_eq_Nil_conv list_all_iff .
next
  assume "list_all isspace s" then show "strip s = []" by (rule strip_all_space)
qed

lemma totp_gate_no_path:
  "totp_secret_path m = [] \<Longrightarrow> totp_gate w m passwd = (Inr (Some passwd), [])"
  by (simp add: totp_gate_def)

lemma totp_gate_blank:
  "totp_secret_path m \<noteq> [] \<Longrightarrow> file_read w (totp_secret_path m) = Inr content \<Longrightarrow>
   strip content = [] \<Longrightarrow> totp_gate w m passwd = (Inr (Some passwd), [])"
  by (simp add: totp_gate_def)

lemma totp_gate_secret:
  "totp_secret_path m \<noteq> [] \<Longrightarrow> file_read w (totp_secret_path m) = Inr content \<Longrightarrow>
   strip content \<noteq> [] \<Longrightarrow>
   totp_verify w (strip content) (slice_last 6 passwd) 1 = Inr ok \<Longrightarrow>
   totp_gate w m passwd =
     (Inr (if ok then Some (slice_but_last 6 passwd) else None),
      [Totp_verify (strip content) (slice_last 6 passwd) 1])"
  by (simp add: totp_gate_def Let_def)

lemma authorize_after_gate:
  assumes "usr = strip usr" "usr \<noteq> []" "enabled m" "internal_service m = Some internal"
    and "select_service m internal usr = (wh, svc)"
  shows "authorize w m usr passwd =
     (case totp_gate w m passwd of
        (Inl e, tr) \<Rightarrow> (Inl e, m, tr)
      | (Inr None, tr) \<Rightarrow> (Inr False, m, tr)
      | (Inr (Some p), tr) \<Rightarrow> (service_authorize svc usr p, m, tr @ [Service_authorize wh usr p]))"
proof -
  from assms(1) have s: "strip usr = usr" by simp
  show ?thesis
    using assms(2-5) s
    by (auto simp add: authorize_def split: prod.splits sum.splits option.splits)
qed

text \<open>
  Claim C1. Let the assertions of \<open>authorize\<close> hold and let the backend chosen for
  the user be \<open>svc\<close>. When the file of the secret holds a secret that is not empty
  once stripped, the code checked is the last six characters of the password, with a
  window of one step: if the check fails, \<open>authorize\<close> returns false and has called
  no backend; if it succeeds, \<open>authorize\<close> returns what the backend answers for the
  password without its last six characters, and that is the only backend call. When
  no path is configured, or the stripped file is empty, the backend is called with the
  whole password and no code is checked.
\<close>

theorem authorize_totp_spec:
  assumes "usr = strip usr" and "usr \<noteq> []" and "enabled m"
    and "internal_service m = Some internal"
    and "select_service m internal usr = (wh, svc)"
  shows
    "(totp_secret_path m \<noteq> [] \<and> file_read w (totp_secret_path m) = Inr content \<and>
        strip content \<noteq> [] \<longrightarrow>
        (totp_verify w (strip content) (slice_last 6 passwd) 1 = Inr False \<longrightarrow>
           authorize w m usr passwd =
             (Inr False, m, [Totp_verify (strip content) (slice_last 6 passwd) 1])) \<and>
        (totp_verify w (strip content) (slice_last 6 passwd) 1 = Inr True \<longrightarrow>
           authorize w m usr passwd =
             (service_authorize svc usr (slice_but_last 6 passwd), m,
              [Totp_verify (strip content) (slice_last 6 passwd) 1,
               Service_authorize wh usr (slice_but_last 6 passwd)]))) \<and>
     (totp_secret_path m = [] \<or>
        (file_read w (totp_secret_path m) = Inr content \<and> strip content = []) \<longrightarrow>
        authorize w m usr passwd =
          (service_authorize svc usr passwd, m, [Service_authorize wh usr passwd]))"
proof -
  note a = authorize_after_gate[OF assms, of w passwd]
  have p1: "totp_secret_path m \<noteq> [] \<Longrightarrow> file_read w (totp_secret_path m) = Inr content \<Longrightarrow>
        strip content \<noteq> [] \<Longrightarrow>
        totp_verify w (strip content) (slice_last 6 passwd) 1 = Inr False \<Longrightarrow>
           authorize w m usr passwd =
             (Inr False, m, [Totp_verify (strip content) (slice_last 6 passwd) 1])"
    using a by (simp add: totp_gate_secret)
  have p2: "totp_secret_path m \<noteq> [] \<Longrightarrow> file_read w (totp_secret_path m) = Inr content \<Longrightarrow>
        strip content \<noteq> [] \<Longrightarrow>
        totp_verify w (strip content) (slice_last 6 passwd) 1 = Inr True \<Longrightarrow>
           authorize w m usr passwd =
             (service_authorize svc usr (slice_but_last 6 passwd), m,
              [Totp_verify (strip content) (slice_last 6 passwd) 1,
               Service_authorize wh usr (slice_but_last 6 passwd)])"
    using a by (simp add: totp_gate_secret)
  have p3: "totp_secret_path m = [] \<Longrightarrow> authorize w m usr passwd =
          (service_authorize svc usr passwd, m, [Service_authorize wh usr passwd])"
    using a by (simp add: totp_gate_no_path)
  have p4: "totp_secret_path m \<noteq> [] \<Longrightarrow> file_read w (totp_secret_path m) = Inr content \<Longrightarrow>
        strip content = [] \<Longrightarrow> authorize w m usr passwd =
          (service_authorize svc usr passwd, m, [Service_authorize wh usr passwd])"
    using a by (simp add: totp_gate_blank)
  show ?thesis using p1 p2 p3 p4 by blast
qed

theorem authorize_totp_spec_witness:
  "''alice'' = strip ''alice'' \<and> enabled totp_manager \<and>
   internal_service totp_manager = Some (demo_service ''htpasswd'' ''pw1'') \<and>
   select_service totp_manager (demo_service ''htpasswd'' ''pw1'') ''alice'' =
     (External, demo_service ''pam'' ''pw2'') \<and>
   file_read demo_world (totp_secret_path totp_manager) = Inr (''BASE32SECRET'' @ [CHR 0x0A]) \<and>
   strip (''BASE32SECRET'' @ [CHR 0x0A]) = ''BASE32SECRET'' \<and>
   authorize demo_world totp_manager ''alice'' ''pw2000000'' =
     (Inr False, totp_manager, [Totp_verify ''BASE32SECRET'' ''000000'' 1]) \<and>
   authorize demo_world totp_manager ''alice'' ''pw2123456'' =
     (Inr True, totp_manager,
      [Totp_verify ''BASE32SECRET'' ''123456'' 1, Service_authorize External ''alice'' ''pw2'']) \<and>
   authorize demo_world demo_manager ''alice'' ''pw2123456'' =
     (Inr False, demo_manager, [Service_authorize External ''alice'' ''pw2123456''])"
  using authorize_totp_spec[where usr = "''alice''" and m = totp_manager and w = demo_world
          and internal = "demo_service ''htpasswd'' ''pw1''" and wh = External
          and svc = "demo_service ''pam'' ''pw2''" and passwd = "''pw2000000''"
          and content = "''BASE32SECRET'' @ [CHR 0x0A]"]
        authorize_totp_spec[where usr = "''alice''" and m = totp_manager and w = demo_world
          and internal = "demo_service ''htpasswd'' ''pw1''" and wh = External
          and svc = "demo_service ''pam'' ''pw2''" and passwd = "''pw2123456''"
          and content = "''BASE32SECRET'' @ [CHR 0x0A]"]
        authorize_totp_spec[where usr = "''alice''" and m = demo_manager and w = demo_world
          and internal = "demo_service ''htpasswd'' ''pw1''" and wh = External
          and svc = "demo_service ''pam'' ''pw2''" and passwd = "''pw2123456''"
          and content = "[]"]
  by (simp add: totp_manager_def demo_manager_def demo_world_def demo_service_def
        select_service_def strip_def isspace_def slice_last_def slice_but_last_def)

lemma authorize_backend_event:
  "Service_authorize wh u p \<in> set (snd (snd (authorize w m usr passwd))) \<Longrightarrow>
   \<exists>internal. internal_service m = Some internal \<and>
     wh = fst (select_service m internal usr) \<and> u = usr \<and>
     fst (authorize w m usr passwd) =
       service_authorize (snd (select_service m internal usr)) usr p"
  by (auto simp add: authorize_def totp_gate_def Let_def
      split: prod.splits sum.splits option.splits if_splits)

text \<open>
  Claim C5. Whenever \<open>authorize\<close> calls a backend, it calls it for the user it was
  given, the answer of that backend is the result of \<open>authorize\<close>, and the backend is
  the internal one exactly when the user is in the forced-internal list or no external
  backend is configured, and the external one otherwise.
\<close>

theorem authorize_backend_selection:
  "Service_authorize wh u p \<in> set (snd (snd (authorize w m usr passwd))) \<Longrightarrow>
     u = usr \<and>
     (if usr \<in> set (force_internal_users m) \<or> external_service m = None
      then wh = Internal \<and>
           (\<exists>svc. internal_service m = Some svc \<and>
              fst (authorize w m usr passwd) = service_authorize svc usr p)
      else wh = External \<and>
           (\<exists>svc. external_service m = Some svc \<and>
              fst (authorize w m usr passwd) = service_authorize svc usr p))"
proof -
  assume ev: "Service_authorize wh u p \<in> set (snd (snd (authorize w m usr passwd)))"
  from authorize_backend_event[OF ev]
  obtain internal where i: "internal_service m = Some internal"
    and eq: "wh = fst (select_service m internal usr)" "u = usr"
    and r: "fst (authorize w m usr passwd) =
        service_authorize (snd (select_service m internal usr)) usr p"
    by blast
  show ?thesis
  proof (cases "usr \<in> set (force_internal_users m) \<or> external_service m = None")
    case True
    then have "select_service m internal usr = (Internal, internal)"
      by (auto simp: select_service_def split: option.splits)
    with True eq i r show ?thesis by simp
  next
    case False
    then obtain external where e: "external_service m = Some external" by auto
    with False have "select_service m internal usr = (External, external)"
      by (simp add: select_service_def)
    with False eq e r show ?thesis by simp
  qed
qed

theorem authorize_backend_selection_witness:
  "Service_authorize Internal ''admin'' ''pw1'' \<in>
     set (snd (snd (authorize demo_world demo_manager ''admin'' ''pw1''))) \<and>
   ''admin'' \<in> set (force_internal_users demo_manager) \<and>
   external_service demo_manager = Some (demo_service ''pam'' ''pw2'') \<and>
   internal_service demo_manager = Some (demo_service ''htpasswd'' ''pw1'') \<and>
   fst (authorize demo_world demo_manager ''admin'' ''pw1'') = Inr True \<and>
   Service_authorize External ''alice'' ''pw1'' \<in>
     set (snd (snd (authorize demo_world demo_manager ''alice'' ''pw1''))) \<and>
   ''alice'' \<notin> set (force_internal_users demo_manager) \<and>
   fst (authorize demo_world demo_manager ''alice'' ''pw1'') = Inr False"
  using authorize_backend_selection[where wh = Internal and u = "''admin''" and p = "''pw1''"
          and w = demo_world and m = demo_manager and usr = "''admin''" and passwd = "''pw1''"]
        authorize_backend_selection[where wh = External and u = "''alice''" and p = "''pw1''"
          and w = demo_world and m = demo_manager and usr = "''alice''" and passwd = "''pw1''"]
  by (simp add: authorize_def totp_gate_def select_service_def demo_manager_def demo_world_def
        demo_service_def strip_def isspace_def)

lemma authorize_same_gate:
  assumes "enabled m' = enabled m" "internal_service m' = internal_service m"
    and "force_internal_users m' = force_internal_users m"
    and "external_service m' = external_service m"
    and "totp_gate w m' passwd = totp_gate w m passwd"
  shows "fst (authorize w m' usr passwd) = fst (authorize w m usr passwd) \<and>
         snd (snd (authorize w m' usr passwd)) = snd (snd (authorize w m usr passwd))"
  using assms
  by (auto simp add: authorize_def select_service_def
      split: prod.splits sum.splits option.splits)

lemma authorize_self: "fst (snd (authorize w m usr passwd)) = m"
  by (auto simp add: authorize_def split: prod.splits sum.splits option.splits)

text \<open>
  Claim C10. When a path of the secret is configured and the file holds only
  whitespace, \<open>authorize\<close> returns the same result after the same calls as on the
  manager with no path configured: it checks no code, and when its assertions hold it
  hands the whole password to the backend chosen for the user.
\<close>

theorem blank_secret_is_no_secret:
  assumes "totp_secret_path m \<noteq> []"
    and "file_read w (totp_secret_path m) = Inr content"
    and "list_all isspace content"
  shows
    "fst (authorize w m usr passwd) =
       fst (authorize w (m\<lparr>totp_secret_path := []\<rparr>) usr passwd) \<and>
     snd (snd (authorize w m usr passwd)) =
       snd (snd (authorize w (m\<lparr>totp_secret_path := []\<rparr>) usr passwd)) \<and>
     fst (snd (authorize w m usr passwd)) = m \<and>
     (\<forall>secret code win. Totp_verify secret code win \<notin> set (snd (snd (authorize w m usr passwd)))) \<and>
     (\<forall>internal wh svc.
        usr = strip usr \<and> usr \<noteq> [] \<and> enabled m \<and> internal_service m = Some internal \<and>
        select_service m internal usr = (wh, svc) \<longrightarrow>
        authorize w m usr passwd =
          (service_authorize svc usr passwd, m, [Service_authorize wh usr passwd]))"
proof -
  from assms(3) have blank: "strip content = []" by (rule strip_all_space)
  have gate: "totp_gate w m passwd = (Inr (Some passwd), [])"
    using assms(1,2) blank by (rule totp_gate_blank)
  have gate0: "totp_gate w (m\<lparr>totp_secret_path := []\<rparr>) passwd = (Inr (Some passwd), [])"
    by (simp add: totp_gate_no_path)
  have same: "fst (authorize w m usr passwd) =
       fst (authorize w (m\<lparr>totp_secret_path := []\<rparr>) usr passwd) \<and>
     snd (snd (authorize w m usr passwd)) =
       snd (snd (authorize w (m\<lparr>totp_secret_path := []\<rparr>) usr passwd))"
    by (rule authorize_same_gate) (simp_all add: gate gate0)
  have no_totp: "\<And>secret code win.
      Totp_verify secret code win \<notin> set (snd (snd (authorize w m usr passwd)))"
    using gate
    by (auto simp add: authorize_def split: prod.splits sum.splits option.splits)
  have full: "\<And>internal wh svc.
        usr = strip usr \<and> usr \<noteq> [] \<and> enabled m \<and> internal_service m = Some internal \<and>
        select_service m internal usr = (wh, svc) \<Longrightarrow>
        authorize w m usr passwd =
          (service_authorize svc usr passwd, m, [Service_authorize wh usr passwd])"
  proof -
    fix internal wh svc
    assume h: "usr = strip usr \<and> usr \<noteq> [] \<and> enabled m \<and> internal_service m = Some internal \<and>
        select_service m internal usr = (wh, svc)"
    then have h1: "usr = strip usr" and h2: "usr \<noteq> []" and h3: "enabled m"
      and h4: "internal_service m = Some internal"
      and h5: "select_service m internal usr = (wh, svc)"
      by simp_all
    note authorize_after_gate[OF h1 h2 h3 h4 h5, of w passwd]
    then show "authorize w m usr passwd =
          (service_authorize svc usr passwd, m, [Service_authorize wh usr passwd])"
      by (simp add: gate)
  qed
  show ?thesis using same no_totp full authorize_self[of w m usr passwd] by blast
qed

theorem blank_secret_is_no_secret_witness:
  "totp_secret_path blank_manager \<noteq> [] \<and>
   file_read demo_world (totp_secret_path blank_manager) = Inr [CHR 0x20, CHR 0x0A] \<and>
   list_all isspace [CHR 0x20, CHR 0x0A] \<and>
   authorize demo_world blank_manager ''alice'' ''pw2123456'' =
     (Inr False, blank_manager, [Service_authorize External ''alice'' ''pw2123456'']) \<and>
   authorize demo_world blank_manager ''alice'' ''pw2'' =
     (Inr True, blank_manager, [Service_authorize External ''alice'' ''pw2''])"
  using blank_secret_is_no_secret[where m = blank_manager and w = demo_world
          and content = "[CHR 0x20, CHR 0x0A]" and usr = "''alice''" and passwd = "''pw2123456''"]
        blank_secret_is_no_secret[where m = blank_manager and w = demo_world
          and content = "[CHR 0x20, CHR 0x0A]" and usr = "''alice''" and passwd = "''pw2''"]
  by (simp add: authorize_def totp_gate_def select_service_def blank_manager_def
        demo_manager_def demo_world_def demo_service_def strip_def isspace_def)

subsection \<open>Login\<close>

lemma authorize_returns:
  "authorize w m usr passwd = (Inr ok, m1, tr) \<Longrightarrow>
     m1 = m \<and> strip usr = usr \<and> usr \<noteq> [] \<and> enabled m"
  by (auto simp add: authorize_def split: prod.splits sum.splits option.splits if_splits)

lemma authorize_raises:
  "authorize w m usr passwd = (Inl e, m1, tr) \<Longrightarrow> 0 \<le> expire \<Longrightarrow>
     login w m usr passwd expire = (Inl e, m, tr)"
  by (auto simp add: login_def authorize_def split: prod.splits sum.splits option.splits if_splits)

lemma Session_valid:
  "strip usr = usr \<Longrightarrow> usr \<noteq> [] \<Longrightarrow> 0 \<le> ts \<Longrightarrow>
     Session usr ts = Inr \<lparr>user = usr, expire_ts = ts\<rparr>"
  by (simp add: Session_def)

lemma make_new_token_fresh:
  "fst (make_new_token w m) = Inr token \<Longrightarrow> map_of (sessions m) token = None"
  using make_new_token_loop_spec[where w = w and d = "sessions m" and n = 10 and i = 0]
  by (auto simp: make_new_token_def split: prod.splits sum.splits)

lemma login_token_exhausted:
  "authorize w m usr passwd = (Inr True, m_after, tr) \<Longrightarrow> 0 \<le> expire \<Longrightarrow>
   fst (make_new_token w m) = Inl e \<Longrightarrow> login w m usr passwd expire = (Inl e, m, tr)"
  by (auto simp add: login_def dest!: authorize_returns)

text \<open>
  Claim C4. Let \<open>expire\<close> be non-negative and let \<open>authorize\<close> return. If it returns
  true, then for the token that the generator yields, with a clock that is not
  negative, \<open>login\<close> returns that token, which was not a key of the table, and the
  table afterwards maps it, and nothing else anew, to the session of the user with
  \<open>expire_ts\<close> 0 when \<open>expire \<le> 0\<close> and \<open>now + expire\<close> otherwise; \<open>check\<close> of
  the token at the same instant returns the user. If \<open>authorize\<close> returns false,
  \<open>login\<close> returns none and the manager is as it was.
\<close>

theorem login_spec:
  assumes "0 \<le> expire" and "authorize w m usr passwd = (Inr ok, m_after, tr)"
  shows
    "(if ok then
        (\<forall>token. fst (make_new_token w m) = Inr token \<and> 0 \<le> monotonic w \<longrightarrow>
           (\<exists>s m'. login w m usr passwd expire = (Inr (Some token), m', tr) \<and>
              s = \<lparr>user = usr,
                   expire_ts = (if expire \<le> 0 then 0 else monotonic w + expire)\<rparr> \<and>
              m' = m\<lparr>sessions := AList.update token s (sessions m)\<rparr> \<and>
              map_of (sessions m) token = None \<and>
              map_of (sessions m') = (map_of (sessions m))(token \<mapsto> s) \<and>
              check w m' token = (Inr (Some usr), m', [])))
      else login w m usr passwd expire = (Inr None, m, tr))"
proof (cases ok)
  case False
  from authorize_returns[OF assms(2)] have "m_after = m" "strip usr = usr" "usr \<noteq> []" "enabled m"
    by simp_all
  with False assms show ?thesis by (simp add: login_def)
next
  case True
  from authorize_returns[OF assms(2)]
  have m_after: "m_after = m" and su: "strip usr = usr" and ne: "usr \<noteq> []" and en: "enabled m"
    by simp_all
  have "\<And>token. fst (make_new_token w m) = Inr token \<and> 0 \<le> monotonic w \<Longrightarrow>
           (\<exists>s m'. login w m usr passwd expire = (Inr (Some token), m', tr) \<and>
              s = \<lparr>user = usr,
                   expire_ts = (if expire \<le> 0 then 0 else monotonic w + expire)\<rparr> \<and>
              m' = m\<lparr>sessions := AList.update token s (sessions m)\<rparr> \<and>
              map_of (sessions m) token = None \<and>
              map_of (sessions m') = (map_of (sessions m))(token \<mapsto> s) \<and>
              check w m' token = (Inr (Some usr), m', []))"
  proof -
    fix token
    assume h: "fst (make_new_token w m) = Inr token \<and> 0 \<le> monotonic w"
    let ?ts = "if expire \<le> 0 then 0 else monotonic w + expire"
    let ?s = "\<lparr>user = usr, expire_ts = ?ts\<rparr>"
    let ?m' = "m\<lparr>sessions := AList.update token ?s (sessions m)\<rparr>"
    from h assms(1) have ts: "0 \<le> ?ts" by simp
    have S: "Session usr ?ts = Inr ?s" using su ne ts by (rule Session_valid)
    have l: "login w m usr passwd expire = (Inr (Some token), ?m', tr)"
    proof (cases "expire \<le> 0")
      case le: True
      with S have "Session usr 0 = Inr \<lparr>user = usr, expire_ts = 0\<rparr>" by simp
      with le assms True m_after su ne en h show ?thesis by (simp add: login_def)
    next
      case gt: False
      with S have "Session usr (monotonic w + expire) =
          Inr \<lparr>user = usr, expire_ts = monotonic w + expire\<rparr>" by simp
      with gt assms True m_after su ne en h show ?thesis
        by (simp add: login_def get_now_ts_def)
    qed
    have fresh: "map_of (sessions m) token = None"
      using h make_new_token_fresh[of w m token] by blast
    have look: "map_of (sessions ?m') = (map_of (sessions m))(token \<mapsto> ?s)"
      by (simp add: AList.update_conv')
    have en': "enabled ?m'" using en by simp
    have look1: "map_of (sessions ?m') token = Some ?s" using look by simp
    have u: "user ?s \<noteq> []" using ne by simp
    have c: "check w ?m' token = (Inr (Some usr), ?m', [])"
      using check_present[OF en' look1 u, of w] assms(1) by simp
    show "\<exists>s m'. login w m usr passwd expire = (Inr (Some token), m', tr) \<and>
              s = \<lparr>user = usr,
                   expire_ts = (if expire \<le> 0 then 0 else monotonic w + expire)\<rparr> \<and>
              m' = m\<lparr>sessions := AList.update token s (sessions m)\<rparr> \<and>
              map_of (sessions m) token = None \<and>
              map_of (sessions m') = (map_of (sessions m))(token \<mapsto> s) \<and>
              check w m' token = (Inr (Some usr), m', [])"
      using l fresh look c by blast
  qed
  with True show ?thesis by simp
qed

theorem login_spec_witness:
  "(0::int) \<le> 60 \<and>
   authorize demo_world demo_manager ''alice'' ''pw2'' =
     (Inr True, demo_manager, [Service_authorize External ''alice'' ''pw2'']) \<and>
   fst (make_new_token demo_world demo_manager) = Inr ''bb'' \<and>
   0 \<le> monotonic demo_world \<and>
   check demo_world
     (demo_manager\<lparr>sessions :=
        demo_sessions @ [(''bb'', \<lparr>user = ''alice'', expire_ts = 160\<rparr>)]\<rparr>) ''bb'' =
     (Inr (Some ''alice''),
      demo_manager\<lparr>sessions :=
        demo_sessions @ [(''bb'', \<lparr>user = ''alice'', expire_ts = 160\<rparr>)]\<rparr>, []) \<and>
   login demo_world demo_manager ''alice'' ''pw2'' 60 =
     (Inr (Some ''bb''),
      demo_manager\<lparr>sessions := demo_sessions @ [(''bb'', \<lparr>user = ''alice'', expire_ts = 160\<rparr>)]\<rparr>,
      [Service_authorize External ''alice'' ''pw2'']) \<and>
   authorize demo_world demo_manager ''alice'' ''bad'' =
     (Inr False, demo_manager, [Service_authorize External ''alice'' ''bad'']) \<and>
   login demo_world demo_manager ''alice'' ''bad'' 60 =
     (Inr None, demo_manager, [Service_authorize External ''alice'' ''bad''])"
  using login_spec[where expire = 60 and w = demo_world and m = demo_manager
          and usr = "''alice''" and passwd = "''pw2''" and ok = True and m_after = demo_manager
          and tr = "[Service_authorize External ''alice'' ''pw2'']"]
        login_spec[where expire = 60 and w = demo_world and m = demo_manager
          and usr = "''alice''" and passwd = "''bad''" and ok = False and m_after = demo_manager
          and tr = "[Service_authorize External ''alice'' ''bad'']"]
  by (simp add: authorize_def totp_gate_def select_service_def make_new_token_def
        demo_manager_def demo_sessions_def demo_world_def demo_service_def strip_def
        isspace_def eval_nat_numeral)

subsection \<open>Shutdown\<close>

text \<open>
  Claim C6, as stated, fails: with an external backend configured and an internal
  backend whose cleanup raises, the external cleanup is never attempted.
\<close>

theorem cleanup_skips_external_counterexample:
  "enabled broken_manager \<and>
   internal_service broken_manager = Some broken_service \<and>
   external_service broken_manager = Some (demo_service ''pam'' ''pw2'') \<and>
   cleanup broken_manager = (Inl (Raised ''OSError''), broken_manager, [Service_cleanup Internal]) \<and>
   Service_cleanup External \<notin> set (snd (snd (cleanup broken_manager)))"
  by (simp add: cleanup_def broken_manager_def demo_manager_def broken_service_def)

text \<open>
  Claim C6, amended. On an enabled manager \<open>cleanup\<close> always attempts the cleanup of
  the internal backend first. It attempts the cleanup of the external backend exactly
  when one is configured and the internal cleanup returned; an error of the internal
  cleanup is the result of \<open>cleanup\<close>. The manager is unchanged.
\<close>

theorem cleanup_spec:
  assumes "enabled m" and "internal_service m = Some internal"
  shows
    "snd (snd (cleanup m)) =
       Service_cleanup Internal #
         (if service_cleanup internal = Inr () \<and> external_service m \<noteq> None
          then [Service_cleanup External] else []) \<and>
     fst (snd (cleanup m)) = m \<and>
     (case service_cleanup internal of
        Inl e \<Rightarrow> fst (cleanup m) = Inl e
      | Inr _ \<Rightarrow>
          (case external_service m of
             None \<Rightarrow> fst (cleanup m) = Inr ()
           | Some external \<Rightarrow> fst (cleanup m) = service_cleanup external))"
  using assms
  by (auto simp add: cleanup_def split: sum.splits option.splits)

theorem cleanup_spec_witness:
  "enabled demo_manager \<and> internal_service demo_manager = Some (demo_service ''htpasswd'' ''pw1'') \<and>
   cleanup demo_manager = (Inr (), demo_manager, [Service_cleanup Internal, Service_cleanup External]) \<and>
   enabled broken_manager \<and> internal_service broken_manager = Some broken_service \<and>
   snd (snd (cleanup broken_manager)) = [Service_cleanup Internal]"
  using cleanup_spec[where m = demo_manager and internal = "demo_service ''htpasswd'' ''pw1''"]
        cleanup_spec[where m = broken_manager and internal = broken_service]
  by (simp add: cleanup_def broken_manager_def demo_manager_def broken_service_def demo_service_def)

subsection \<open>What every reachable manager satisfies\<close>

text \<open>
  The two hypotheses on the table used above hold of every manager a program can
  reach: each stored session passed the assertions of its constructor, and no key
  occurs twice.
\<close>

lemma Session_ok: "Session usr ts = Inr s \<Longrightarrow> session_ok s"
  by (auto simp add: Session_def session_ok_def split: if_splits)

lemma sessions_ok_update:
  "sessions_ok d \<Longrightarrow> session_ok s \<Longrightarrow> sessions_ok (AList.update k s d)"
  by (induction d) (auto simp add: sessions_ok_def)

lemma sessions_ok_delete: "sessions_ok d \<Longrightarrow> sessions_ok (AList.delete k d)"
  by (simp add: sessions_ok_def delete_filter list_all_iff)

lemma dict_del_invariants:
  "dict_del k d = Inr d' \<Longrightarrow> sessions_ok d \<and> keys_unique d \<Longrightarrow>
     sessions_ok d' \<and> keys_unique d'"
  by (auto simp add: dict_del_def keys_unique_def sessions_ok_delete AList.distinct_delete
      split: option.splits)

lemma logout_loop_invariants:
  "logout_loop usr items count d = Inr (count', d') \<Longrightarrow> sessions_ok d \<and> keys_unique d \<Longrightarrow>
     sessions_ok d' \<and> keys_unique d'"
proof (induction usr items count d rule: logout_loop.induct)
  case (1 usr count d)
  then show ?case by simp
next
  case (2 usr key_t s items count d)
  show ?case
  proof (cases "user s = usr")
    case False
    with 2 show ?thesis by simp
  next
    case True
    with "2.prems"(1) obtain d1 where del: "dict_del key_t d = Inr d1"
      and loop: "logout_loop usr items (count + 1) d1 = Inr (count', d')"
      by (auto split: sum.splits)
    from dict_del_invariants[OF del "2.prems"(2)]
    have "sessions_ok d1 \<and> keys_unique d1" .
    with "2.IH"(1)[OF True del loop] show ?thesis .
  qed
qed

lemma login_invariants:
  assumes "login w m usr passwd expire = (r, m', tr)"
    and "sessions_ok (sessions m) \<and> keys_unique (sessions m)"
  shows "sessions_ok (sessions m') \<and> keys_unique (sessions m')"
proof -
  have m1: "\<And>x ma t. authorize w m usr passwd = (x, ma, t) \<Longrightarrow> ma = m"
    using authorize_self[of w m usr passwd] by simp
  show ?thesis
    using assms
    by (auto simp add: login_def keys_unique_def sessions_ok_update Session_ok
        AList.distinct_update
        split: if_splits prod.splits sum.splits dest!: m1)
qed

lemma check_invariants:
  assumes "check w m token = (r, m', tr)"
    and "sessions_ok (sessions m) \<and> keys_unique (sessions m)"
  shows "sessions_ok (sessions m') \<and> keys_unique (sessions m')"
  using assms dict_del_invariants[of token "sessions m"]
  by (auto simp add: check_def split: if_splits option.splits sum.splits)

lemma logout_invariants:
  assumes "logout m token = (r, m', tr)"
    and "sessions_ok (sessions m) \<and> keys_unique (sessions m)"
  shows "sessions_ok (sessions m') \<and> keys_unique (sessions m')"
  using assms
  by (auto simp add: logout_def Let_def split: if_splits option.splits sum.splits
      dest: logout_loop_invariants)

lemma reachable_invariants:
  "reachable m \<Longrightarrow> sessions_ok (sessions m) \<and> keys_unique (sessions m)"
proof (induction rule: reachable.induct)
  case (fresh m)
  then show ?case by (simp add: sessions_ok_def keys_unique_def)
next
  case (after_login m w usr passwd expire r m' tr)
  then show ?case using login_invariants by blast
next
  case (after_check m w token r' m' tr)
  then show ?case using check_invariants by blast
next
  case (after_logout m token r'' m' tr)
  then show ?case using logout_invariants by blast
qed

lemma init_reachable: "init g en ps it ik fu et ek tp = Inr m \<Longrightarrow> reachable m"
  by (rule reachable.fresh) (auto simp add: init_def split: sum.splits)

end
